theory Spec2Isabelle
  imports Main "HOL-Library.Code_Target_Nat"
begin

section \<open>Rectangle\<close>

text \<open>
  \<^verbatim>\<open>function Rectangle(width, height)\<close> stores its two arguments in the fields
  \<open>width\<close> and \<open>height\<close> of the new object and installs the arrow function
  \<^verbatim>\<open>() => this.width * this.height\<close> as \<open>getArea\<close>. The arrow function closes over the
  object, so a call reads the two fields as they are at the time of the call. The type of
  numbers is a parameter: the product is whatever \<open>*\<close> is on it.
\<close>

record 'n rectangle =
  width :: 'n
  height :: 'n

definition Rectangle :: "'n \<Rightarrow> 'n \<Rightarrow> 'n rectangle" where
  "Rectangle w h = \<lparr>width = w, height = h\<rparr>"

definition getArea :: "('n::times) rectangle \<Rightarrow> 'n" where
  "getArea this = width this * height this"


section \<open>The selector object\<close>

text \<open>
  The keys of \<open>this.correctOrder\<close>, in the order the constructor's object literal inserts
  them. The object \<open>this.params\<close> has the same six entries; its entry for \<open>Class\<close> is
  the one the source calls \<open>className\<close>.
\<close>

datatype key = Element | Id | Class | Attr | PseudoClass | PseudoElement

text \<open>
  Both errors are thrown as a plain \<open>Error\<close>; they differ in the message.
  \<open>DuplicateSelectorPartError\<close>: "Element, id and pseudo-element should not occur more
  then one time inside the selector". \<open>SelectorOrderError\<close>: "Selector parts should be
  arranged in the following order: element, id, class, attribute, pseudo-class,
  pseudo-element".
\<close>

datatype error = DuplicateSelectorPartError | SelectorOrderError

record CssSelectorBase =
  params :: "key \<Rightarrow> string list"
  selectorString :: string
  correctOrder :: "key \<Rightarrow> bool"

definition new_CssSelectorBase :: CssSelectorBase where
  "new_CssSelectorBase =
     \<lparr>params = (\<lambda>_. []), selectorString = [], correctOrder = (\<lambda>_. False)\<rparr>"

text \<open>\<open>Object.keys(this.correctOrder)\<close>: no method adds or deletes a key.\<close>

definition correctOrder_keys :: "key list" where
  "correctOrder_keys = [Element, Id, Class, Attr, PseudoClass, PseudoElement]"

text \<open>
  A method that throws leaves the object as it was at the \<open>throw\<close>, so every method
  returns the object it leaves behind together with its outcome: \<open>Some e\<close> when it
  threw \<open>e\<close>, \<open>None\<close> when it returned.
\<close>

definition checkForOccurance :: "key \<Rightarrow> CssSelectorBase \<Rightarrow> error option" where
  "checkForOccurance paramName this =
     (if length (params this paramName) \<noteq> 0 then Some DuplicateSelectorPartError else None)"

text \<open>
  The \<open>forEach\<close> of \<open>checkForOrder\<close> over the remaining keys; \<open>paramIsActive\<close> and
  the flags are the loop's state. The assignment \<open>this.correctOrder[param] = true\<close>
  happens before any later key is looked at, and stays when the loop throws.
\<close>

fun checkForOrder_forEach ::
  "key \<Rightarrow> key list \<Rightarrow> bool \<Rightarrow> (key \<Rightarrow> bool) \<Rightarrow> error option \<times> (key \<Rightarrow> bool)" where
  "checkForOrder_forEach paramName [] paramIsActive flags = (None, flags)"
| "checkForOrder_forEach paramName (param # rest) paramIsActive flags =
     (if param = paramName
      then checkForOrder_forEach paramName rest True (flags(param := True))
      else if paramIsActive \<and> flags param
      then (Some SelectorOrderError, flags)
      else checkForOrder_forEach paramName rest paramIsActive flags)"

definition checkForOrder :: "key \<Rightarrow> CssSelectorBase \<Rightarrow> error option \<times> CssSelectorBase" where
  "checkForOrder paramName this =
     (case checkForOrder_forEach paramName correctOrder_keys False (correctOrder this) of
        (r, flags) \<Rightarrow> (r, this\<lparr>correctOrder := flags\<rparr>))"

text \<open>\<open>this.params[k].push(val)\<close>\<close>

definition push :: "key \<Rightarrow> string \<Rightarrow> CssSelectorBase \<Rightarrow> CssSelectorBase" where
  "push k val this = this\<lparr>params := (params this)(k := params this k @ [val])\<rparr>"

definition element :: "string \<Rightarrow> CssSelectorBase \<Rightarrow> error option \<times> CssSelectorBase" where
  "element val this =
     (case checkForOccurance Element this of
        Some e \<Rightarrow> (Some e, this)
      | None \<Rightarrow>
          (case checkForOrder Element this of
             (Some e, this1) \<Rightarrow> (Some e, this1)
           | (None, this1) \<Rightarrow> (None, push Element val this1)))"

definition id_sel :: "string \<Rightarrow> CssSelectorBase \<Rightarrow> error option \<times> CssSelectorBase" where
  "id_sel val this =
     (case checkForOccurance Id this of
        Some e \<Rightarrow> (Some e, this)
      | None \<Rightarrow>
          (case checkForOrder Id this of
             (Some e, this1) \<Rightarrow> (Some e, this1)
           | (None, this1) \<Rightarrow> (None, push Id val this1)))"

definition class_sel :: "string \<Rightarrow> CssSelectorBase \<Rightarrow> error option \<times> CssSelectorBase" where
  "class_sel val this =
     (case checkForOrder Class this of
        (Some e, this1) \<Rightarrow> (Some e, this1)
      | (None, this1) \<Rightarrow> (None, push Class val this1))"

definition attr :: "string \<Rightarrow> CssSelectorBase \<Rightarrow> error option \<times> CssSelectorBase" where
  "attr val this =
     (case checkForOrder Attr this of
        (Some e, this1) \<Rightarrow> (Some e, this1)
      | (None, this1) \<Rightarrow> (None, push Attr val this1))"

definition pseudoClass :: "string \<Rightarrow> CssSelectorBase \<Rightarrow> error option \<times> CssSelectorBase" where
  "pseudoClass val this =
     (case checkForOrder PseudoClass this of
        (Some e, this1) \<Rightarrow> (Some e, this1)
      | (None, this1) \<Rightarrow> (None, push PseudoClass val this1))"

definition pseudoElement :: "string \<Rightarrow> CssSelectorBase \<Rightarrow> error option \<times> CssSelectorBase" where
  "pseudoElement val this =
     (case checkForOrder PseudoElement this of
        (Some e, this1) \<Rightarrow> (Some e, this1)
      | (None, this1) \<Rightarrow>
          (case checkForOccurance PseudoElement this1 of
             Some e \<Rightarrow> (Some e, this1)
           | None \<Rightarrow> (None, push PseudoElement val this1)))"

text \<open>\<open>Array.prototype.join\<close> on an array of strings.\<close>

fun join :: "string \<Rightarrow> string list \<Rightarrow> string" where
  "join sep [] = []"
| "join sep [x] = x"
| "join sep (x # y # ys) = x @ sep @ join sep (y # ys)"

text \<open>\<open>x || ''\<close> for an argument that is a string or was not passed.\<close>

definition or_empty :: "string option \<Rightarrow> string" where
  "or_empty x = (case x of None \<Rightarrow> [] | Some s \<Rightarrow> (if s = [] then [] else s))"

definition addElementToSelectorString ::
  "string list \<Rightarrow> string option \<Rightarrow> string option \<Rightarrow> string option \<Rightarrow>
   CssSelectorBase \<Rightarrow> CssSelectorBase" where
  "addElementToSelectorString param pre separator post this =
     (let a = or_empty pre; b = or_empty separator; c = or_empty post
      in if length param \<noteq> 0
         then this\<lparr>selectorString := selectorString this @ a @ join b param @ c\<rparr>
         else this)"

definition stringify :: "CssSelectorBase \<Rightarrow> string \<times> CssSelectorBase" where
  "stringify this =
     (let this1 = addElementToSelectorString (params this Element) None None None this;
          this2 = addElementToSelectorString (params this1 Id) (Some ''#'') (Some ''#'') None this1;
          this3 = addElementToSelectorString (params this2 Class) (Some ''.'') (Some ''.'') None this2;
          this4 = addElementToSelectorString (params this3 Attr) (Some ''['') (Some '']['') (Some '']'') this3;
          this5 = addElementToSelectorString (params this4 PseudoClass) (Some '':'') (Some '':'') None this4;
          this6 = addElementToSelectorString (params this5 PseudoElement) (Some ''::'') (Some ''::'') None this5
      in (selectorString this6, this6))"


text \<open>
  The six fragment-adding methods, by the key they add to: \<open>obj.element(val)\<close> is
  \<open>add Element val\<close>, and so on. A chain \<open>obj.m1(v1).m2(v2)...\<close> is \<open>addAll\<close>: every
  method returns \<open>this\<close>, and the first \<open>throw\<close> ends the chain.
\<close>

definition add :: "key \<Rightarrow> string \<Rightarrow> CssSelectorBase \<Rightarrow> error option \<times> CssSelectorBase" where
  "add k val this =
     (case k of
        Element \<Rightarrow> element val this
      | Id \<Rightarrow> id_sel val this
      | Class \<Rightarrow> class_sel val this
      | Attr \<Rightarrow> attr val this
      | PseudoClass \<Rightarrow> pseudoClass val this
      | PseudoElement \<Rightarrow> pseudoElement val this)"

fun addAll :: "(key \<times> string) list \<Rightarrow> CssSelectorBase \<Rightarrow> error + CssSelectorBase" where
  "addAll [] this = Inr this"
| "addAll ((k, val) # rest) this =
     (case add k val this of
        (Some e, _) \<Rightarrow> Inl e
      | (None, this1) \<Rightarrow> addAll rest this1)"


section \<open>Objects in a store\<close>

text \<open>
  \<open>combine\<close> calls \<open>stringify\<close> on two other objects, and \<open>stringify\<close> assigns to
  \<open>this.selectorString\<close>, so the objects live in a store and are passed by reference.
  A reference is an index into the store; \<open>new CssSelectorBase()\<close> appends an object.
  JavaScript has no dangling references: a method called on an index outside the store is
  \<open>None\<close> here and changes nothing.
\<close>

type_synonym ref = nat
type_synonym store = "CssSelectorBase list"

definition new :: "store \<Rightarrow> ref \<times> store" where
  "new h = (length h, h @ [new_CssSelectorBase])"

definition stringify_at :: "ref \<Rightarrow> store \<Rightarrow> (string \<times> store) option" where
  "stringify_at p h =
     (if p < length h
      then (case stringify (h ! p) of (s, this1) \<Rightarrow> Some (s, h[p := this1]))
      else None)"

text \<open>
  \<open>this.combine(selector1, combinator, selector2)\<close>: the template literal calls
  \<open>selector1.stringify()\<close>, then \<open>selector2.stringify()\<close>, and the result is assigned
  to \<open>this.selectorString\<close>.
\<close>

definition combine :: "ref \<Rightarrow> ref \<Rightarrow> string \<Rightarrow> ref \<Rightarrow> store \<Rightarrow> store option" where
  "combine this selector1 combinator selector2 h =
     (case stringify_at selector1 h of
        None \<Rightarrow> None
      | Some (s1, h1) \<Rightarrow>
          (case stringify_at selector2 h1 of
             None \<Rightarrow> None
           | Some (s2, h2) \<Rightarrow>
               (if this < length h2
                then Some (h2[this := (h2 ! this)\<lparr>selectorString := s1 @ '' '' @ combinator @ '' '' @ s2\<rparr>])
                else None)))"

text \<open>\<open>cssSelectorBuilder.combine\<close>: \<open>new CssSelectorBase().combine(...)\<close>, returning the new object.\<close>

definition cssSelectorBuilder_combine :: "ref \<Rightarrow> string \<Rightarrow> ref \<Rightarrow> store \<Rightarrow> (ref \<times> store) option" where
  "cssSelectorBuilder_combine selector1 combinator selector2 h =
     (case new h of
        (this, h1) \<Rightarrow>
          (case combine this selector1 combinator selector2 h1 of
             None \<Rightarrow> None
           | Some h2 \<Rightarrow> Some (this, h2)))"

text \<open>
  What a caller can do with the objects, and what it sees of each call: the error thrown,
  or the value returned. The entry points \<open>cssSelectorBuilder.element(val)\<close>, ...,
  \<open>cssSelectorBuilder.pseudoElement(val)\<close> are \<open>New\<close> followed by the \<open>Add\<close> call on the
  new object, and \<open>cssSelectorBuilder.combine\<close> is \<open>New\<close> followed by the \<open>Combine\<close>
  call on it.
\<close>

datatype call = Add key string | Stringify | Combine ref string ref

datatype cmd = New | Call ref call

datatype outcome =
  Threw error | Returned_this | Returned_string string | Returned_new ref | No_such_object

fun step :: "cmd \<Rightarrow> store \<Rightarrow> outcome \<times> store" where
  "step New h = (case new h of (p, h1) \<Rightarrow> (Returned_new p, h1))"
| "step (Call p (Add k val)) h =
     (if p < length h
      then (case add k val (h ! p) of
              (Some e, this1) \<Rightarrow> (Threw e, h[p := this1])
            | (None, this1) \<Rightarrow> (Returned_this, h[p := this1]))
      else (No_such_object, h))"
| "step (Call p Stringify) h =
     (case stringify_at p h of
        None \<Rightarrow> (No_such_object, h)
      | Some (s, h1) \<Rightarrow> (Returned_string s, h1))"
| "step (Call p (Combine selector1 combinator selector2)) h =
     (case combine p selector1 combinator selector2 h of
        None \<Rightarrow> (No_such_object, h)
      | Some h1 \<Rightarrow> (Returned_this, h1))"

text \<open>The store after a sequence of calls, and what the caller saw of them.\<close>

fun exec :: "cmd list \<Rightarrow> store \<Rightarrow> store" where
  "exec [] h = h"
| "exec (c # cs) h = exec cs (snd (step c h))"

fun trace :: "cmd list \<Rightarrow> store \<Rightarrow> outcome list" where
  "trace [] h = []"
| "trace (c # cs) h = fst (step c h) # trace cs (snd (step c h))"


section \<open>The selector grammar, as specified\<close>

text \<open>
  The canonical order of the categories: element, id, class, attribute, pseudo-class,
  pseudo-element.
\<close>

fun rank :: "key \<Rightarrow> nat" where
  "rank Element = 0"
| "rank Id = 1"
| "rank Class = 2"
| "rank Attr = 3"
| "rank PseudoClass = 4"
| "rank PseudoElement = 5"

definition canonical_order :: "key list" where
  "canonical_order = [Element, Id, Class, Attr, PseudoClass, PseudoElement]"

text \<open>Some category strictly later than \<open>k\<close> in the canonical order is flagged as touched.\<close>

definition touched_later :: "key \<Rightarrow> CssSelectorBase \<Rightarrow> bool" where
  "touched_later k this =
     list_ex (\<lambda>t. rank k < rank t \<and> correctOrder this t) canonical_order"

text \<open>The table of prefixes, separators and suffixes.\<close>

fun prefix_of :: "key \<Rightarrow> string" where
  "prefix_of Element = []"
| "prefix_of Id = ''#''"
| "prefix_of Class = ''.''"
| "prefix_of Attr = ''[''"
| "prefix_of PseudoClass = '':''"
| "prefix_of PseudoElement = ''::''"

fun separator_of :: "key \<Rightarrow> string" where
  "separator_of Element = []"
| "separator_of Id = ''#''"
| "separator_of Class = ''.''"
| "separator_of Attr = ''][''"
| "separator_of PseudoClass = '':''"
| "separator_of PseudoElement = ''::''"

fun suffix_of :: "key \<Rightarrow> string" where
  "suffix_of Attr = '']''"
| "suffix_of _ = []"

text \<open>
  A category's fragments joined with its separator and wrapped with its prefix and suffix;
  a category with no fragment contributes nothing. The rendering is the concatenation of
  the categories' contributions in the canonical order.
\<close>

definition render_category :: "key \<Rightarrow> string list \<Rightarrow> string" where
  "render_category k frags =
     (if frags = [] then [] else prefix_of k @ join (separator_of k) frags @ suffix_of k)"

definition render :: "(key \<Rightarrow> string list) \<Rightarrow> string" where
  "render frags = concat (map (\<lambda>k. render_category k (frags k)) canonical_order)"

text \<open>The fragments a sequence of additions gives to a category, in the order they are added.\<close>

definition fragments_of :: "(key \<times> string) list \<Rightarrow> key \<Rightarrow> string list" where
  "fragments_of ops k = map snd (filter (\<lambda>kv. fst kv = k) ops)"

text \<open>The three categories that a selector holds at most once.\<close>

definition singular :: "key \<Rightarrow> bool" where
  "singular k = (k = Element \<or> k = Id \<or> k = PseudoElement)"


section \<open>Reachable objects and indistinguishable objects\<close>

text \<open>
  What holds of every object that the constructor and the methods can produce: a category
  with a fragment is flagged, a flagged category has a fragment in it or in a later
  category, and the three singular categories hold at most one fragment.
\<close>

definition consistent :: "CssSelectorBase \<Rightarrow> bool" where
  "consistent this \<longleftrightarrow>
     (\<forall>k. params this k \<noteq> [] \<longrightarrow> correctOrder this k) \<and>
     (\<forall>k. correctOrder this k \<longrightarrow> (\<exists>t. rank k \<le> rank t \<and> params this t \<noteq> [])) \<and>
     (\<forall>k. singular k \<longrightarrow> length (params this k) \<le> 1)"

text \<open>
  Two objects that no sequence of calls tells apart: the same fragments, the same
  \<open>selectorString\<close>, and flags that block the same categories.
\<close>

definition alike :: "CssSelectorBase \<Rightarrow> CssSelectorBase \<Rightarrow> bool" where
  "alike a b \<longleftrightarrow>
     params a = params b \<and> selectorString a = selectorString b \<and>
     (\<forall>k. touched_later k a = touched_later k b)"



section \<open>Serialization\<close>



subsection \<open>\<open>JSON.stringify\<close>\<close>

text \<open>
  A string is written between double quotes; the double quote, the backslash and the code
  units below 32 are escaped, the latter as \<open>\b\<close>, \<open>\f\<close>, \<open>\n\<close>, \<open>\r\<close>, \<open>\t\<close> or as
  \<open>\u00\<close> and two lower-case hexadecimal digits (\<open>hex_digit\<close> is only applied below 16).
\<close>

definition double_quote :: char where "double_quote = CHR 0x22"





subsection \<open>\<open>JSON.parse\<close>\<close>

text \<open>
  White space is the space, the tab, the line feed and the carriage return. After the
  opening quote a string runs to the closing quote; a code unit below 32 is refused, and so
  is an escape that is not one of \<open>\"\<close>, \<open>\\\<close>, \<open>\/\<close>, \<open>\b\<close>, \<open>\f\<close>, \<open>\n\<close>, \<open>\r\<close>, \<open>\t\<close> or
  \<open>\u\<close> with four hexadecimal digits. An escape \<open>\u\<close> of a code unit above 255 has no
  string in this model and is refused too.
\<close>

definition is_ws :: "char \<Rightarrow> bool" where
  "is_ws c = (c = CHR '' '' \<or> c = CHR 0x09 \<or> c = CHR 0x0A \<or> c = CHR 0x0D)"

definition skip_ws :: "string \<Rightarrow> string" where
  "skip_ws s = dropWhile is_ws s"

definition is_digit :: "char \<Rightarrow> bool" where
  "is_digit c = (48 \<le> (of_char c :: nat) \<and> (of_char c :: nat) \<le> 57)"





















subsection \<open>\<open>Object.create\<close> and \<open>Object.assign\<close>\<close>









subsection \<open>\<open>getJSON\<close> and \<open>fromJSON\<close>\<close>







text \<open>The first character of a value's text, and what can follow a value in a text.\<close>

definition start_char :: "char \<Rightarrow> bool" where
  "start_char c =
     (c = CHR ''n'' \<or> c = CHR ''t'' \<or> c = CHR ''f'' \<or> c = double_quote \<or> c = CHR ''['' \<or> c = CHR ''{'' \<or>
      c = CHR ''-'' \<or> is_digit c)"

definition terminator :: "string \<Rightarrow> bool" where
  "terminator rest = (rest = [] \<or> hd rest = CHR '','' \<or> hd rest = CHR '']'' \<or> hd rest = CHR ''}'')"



section \<open>What the methods compute\<close>

lemma ex_key: "(\<exists>t. P t) \<longleftrightarrow> P Element \<or> P Id \<or> P Class \<or> P Attr \<or> P PseudoClass \<or> P PseudoElement"
  by (metis key.exhaust)

lemma touched_later_iff: "touched_later k this \<longleftrightarrow> (\<exists>t. rank k < rank t \<and> correctOrder this t)"
  by (simp add: touched_later_def canonical_order_def ex_key)

lemma checkForOrder_forEach_keys:
  "checkForOrder_forEach k correctOrder_keys False flags =
     (if list_ex (\<lambda>t. rank k < rank t \<and> flags t) canonical_order then Some SelectorOrderError else None,
      flags(k := True))"
  by (cases k) (simp_all add: correctOrder_keys_def canonical_order_def)

lemma checkForOrder_eq:
  "checkForOrder k this =
     (if touched_later k this then Some SelectorOrderError else None,
      this\<lparr>correctOrder := (correctOrder this)(k := True)\<rparr>)"
  by (simp add: checkForOrder_def checkForOrder_forEach_keys touched_later_def)

lemma touched_later_PseudoElement [simp]: "\<not> touched_later PseudoElement this"
  by (simp add: touched_later_def canonical_order_def)

lemma add_eq:
  "add k val this =
     (if (k = Element \<or> k = Id) \<and> params this k \<noteq> [] then (Some DuplicateSelectorPartError, this)
      else if touched_later k this
      then (Some SelectorOrderError, this\<lparr>correctOrder := (correctOrder this)(k := True)\<rparr>)
      else if k = PseudoElement \<and> params this k \<noteq> []
      then (Some DuplicateSelectorPartError, this\<lparr>correctOrder := (correctOrder this)(k := True)\<rparr>)
      else (None, push k val (this\<lparr>correctOrder := (correctOrder this)(k := True)\<rparr>)))"
  by (cases k)
     (simp_all add: add_def element_def id_sel_def class_sel_def attr_def pseudoClass_def
        pseudoElement_def checkForOccurance_def checkForOrder_eq)

lemma addElementToSelectorString_eq:
  "addElementToSelectorString param pre separator post this =
     this\<lparr>selectorString := selectorString this @
       (if param = [] then [] else or_empty pre @ join (or_empty separator) param @ or_empty post)\<rparr>"
  by (simp add: addElementToSelectorString_def)

lemma addElementToSelectorString_category:
  "addElementToSelectorString frags None None None this =
     this\<lparr>selectorString := selectorString this @ render_category Element frags\<rparr>"
  "addElementToSelectorString frags (Some ''#'') (Some ''#'') None this =
     this\<lparr>selectorString := selectorString this @ render_category Id frags\<rparr>"
  "addElementToSelectorString frags (Some ''.'') (Some ''.'') None this =
     this\<lparr>selectorString := selectorString this @ render_category Class frags\<rparr>"
  "addElementToSelectorString frags (Some ''['') (Some '']['') (Some '']'') this =
     this\<lparr>selectorString := selectorString this @ render_category Attr frags\<rparr>"
  "addElementToSelectorString frags (Some '':'') (Some '':'') None this =
     this\<lparr>selectorString := selectorString this @ render_category PseudoClass frags\<rparr>"
  "addElementToSelectorString frags (Some ''::'') (Some ''::'') None this =
     this\<lparr>selectorString := selectorString this @ render_category PseudoElement frags\<rparr>"
  by (simp_all add: addElementToSelectorString_eq render_category_def or_empty_def)

lemma stringify_eq:
  "stringify this =
     (selectorString this @ render (params this),
      this\<lparr>selectorString := selectorString this @ render (params this)\<rparr>)"
  by (simp add: stringify_def addElementToSelectorString_category Let_def render_def
        canonical_order_def)

lemma params_push: "params (push k v this) = (params this)(k := params this k @ [v])"
  by (simp add: push_def)

lemma selectorString_push [simp]: "selectorString (push k v this) = selectorString this"
  by (simp add: push_def)

lemma correctOrder_push [simp]: "correctOrder (push k v this) = correctOrder this"
  by (simp add: push_def)

lemmas method_as_add =
  add_def [of Element, simplified, symmetric] add_def [of Id, simplified, symmetric]
  add_def [of Class, simplified, symmetric] add_def [of Attr, simplified, symmetric]
  add_def [of PseudoClass, simplified, symmetric] add_def [of PseudoElement, simplified, symmetric]

lemmas evaluate =
  add_eq stringify_eq render_def canonical_order_def render_category_def params_push
  touched_later_def


lemma fragments_of_Cons:
  "fragments_of ((k, v) # ops) k' = (if k = k' then v # fragments_of ops k' else fragments_of ops k')"
  by (simp add: fragments_of_def)

lemma fragments_of_Nil [simp]: "fragments_of [] k = []"
  by (simp add: fragments_of_def)

lemma addAll_ok:
  assumes "sorted (map (\<lambda>kv. rank (fst kv)) ops)"
    and "\<forall>t. correctOrder this t \<longrightarrow> (\<forall>kv\<in>set ops. rank t \<le> rank (fst kv))"
    and "\<forall>kv\<in>set ops. singular (fst kv) \<longrightarrow> length (params this (fst kv) @ fragments_of ops (fst kv)) \<le> 1"
  shows "\<exists>this'. addAll ops this = Inr this' \<and>
           params this' = (\<lambda>k. params this k @ fragments_of ops k) \<and>
           selectorString this' = selectorString this"
  using assms
proof (induction ops arbitrary: this)
  case Nil
  then show ?case by simp
next
  case (Cons kv ops)
  obtain k v where kv: "kv = (k, v)" by (cases kv)
  let ?this1 = "push k v (this\<lparr>correctOrder := (correctOrder this)(k := True)\<rparr>)"
  have not_later: "\<not> touched_later k this"
    using Cons.prems(2) by (fastforce simp: touched_later_iff kv)
  have empty: "singular k \<Longrightarrow> params this k = []"
    using Cons.prems(3) by (simp add: kv fragments_of_Cons)
  have step: "add k v this = (None, ?this1)"
    using not_later empty by (auto simp: add_eq singular_def)
  have p1: "\<And>k'. params ?this1 k' @ fragments_of ops k' = params this k' @ fragments_of (kv # ops) k'"
    by (simp add: push_def kv fragments_of_Cons)
  have s1: "sorted (map (\<lambda>kv. rank (fst kv)) ops)"
    using Cons.prems(1) by simp
  have le: "\<forall>kv'\<in>set ops. rank k \<le> rank (fst kv')"
    using Cons.prems(1) by (simp add: kv)
  have o1: "\<forall>t. correctOrder ?this1 t \<longrightarrow> (\<forall>kv'\<in>set ops. rank t \<le> rank (fst kv'))"
    using Cons.prems(2) le by (simp add: push_def)
  have u1: "\<forall>kv'\<in>set ops. singular (fst kv') \<longrightarrow>
              length (params ?this1 (fst kv') @ fragments_of ops (fst kv')) \<le> 1"
  proof
    fix kv' assume in_ops: "kv' \<in> set ops"
    show "singular (fst kv') \<longrightarrow> length (params ?this1 (fst kv') @ fragments_of ops (fst kv')) \<le> 1"
      using Cons.prems(3) in_ops unfolding p1 by simp
  qed
  from Cons.IH [OF s1 o1 u1] obtain this' where
    r: "addAll ops ?this1 = Inr this'"
       "params this' = (\<lambda>k'. params ?this1 k' @ fragments_of ops k')"
       "selectorString this' = selectorString ?this1"
    by blast
  have "addAll (kv # ops) this = Inr this'"
    using r(1) step by (simp add: kv)
  moreover have "params this' = (\<lambda>k'. params this k' @ fragments_of (kv # ops) k')"
    using r(2) p1 by simp
  moreover have "selectorString this' = selectorString this"
    using r(3) by (simp add: push_def)
  ultimately show ?case by blast
qed

lemma sorted_wrt_less_fragments:
  "sorted_wrt (<) (map (\<lambda>kv. rank (fst kv)) ops) \<Longrightarrow> length (fragments_of ops k) \<le> 1"
proof (induction ops)
  case Nil
  then show ?case by simp
next
  case (Cons kv ops)
  obtain k' v where kv: "kv = (k', v)" by (cases kv)
  show ?case
  proof (cases "k' = k")
    case True
    have "\<forall>kv'\<in>set ops. fst kv' \<noteq> k"
      using Cons.prems True by (auto simp: kv)
    then have "fragments_of ops k = []"
      by (simp add: fragments_of_def filter_empty_conv)
    then show ?thesis by (simp add: kv fragments_of_Cons)
  next
    case False
    then show ?thesis using Cons by (simp add: kv fragments_of_Cons)
  qed
qed

lemma new_fields [simp]:
  "params new_CssSelectorBase = (\<lambda>_. [])"
  "selectorString new_CssSelectorBase = []"
  "correctOrder new_CssSelectorBase = (\<lambda>_. False)"
  by (simp_all add: new_CssSelectorBase_def)


section \<open>The invariant and the store\<close>

lemma fragments_of_same: "fragments_of (map (Pair k) vals) k' = (if k' = k then vals else [])"
  by (induction vals) (auto simp: fragments_of_Cons)

lemma sorted_same: "sorted (map (\<lambda>kv. rank (fst kv)) (map (Pair k) vals))"
  by (induction vals) simp_all

lemma touched_later_flag:
  "touched_later k' (this\<lparr>correctOrder := (correctOrder this)(k := True)\<rparr>) \<longleftrightarrow>
     touched_later k' this \<or> rank k' < rank k"
  by (auto simp: touched_later_iff)

lemma touched_later_push [simp]: "touched_later k' (push k v this) = touched_later k' this"
  by (simp add: touched_later_def)

lemma touched_later_selectorString [simp]:
  "touched_later k (this\<lparr>selectorString := s\<rparr>) = touched_later k this"
  by (simp add: touched_later_def)

lemma alike_refl [simp]: "alike a a"
  by (simp add: alike_def)

lemma alike_add:
  assumes "alike a b"
  shows "fst (add k v a) = fst (add k v b)" and "alike (snd (add k v a)) (snd (add k v b))"
  using assms by (auto simp: alike_def add_eq touched_later_flag params_push)

lemma failed_add_alike:
  assumes "consistent this" and "fst (add k v this) \<noteq> None"
  shows "alike (snd (add k v this)) this"
proof -
  have later: "touched_later k' this" if "touched_later k this" and "rank k' < rank k" for k'
    using that by (auto simp: touched_later_iff intro: less_trans)
  have last: "touched_later k' this"
    if "params this PseudoElement \<noteq> []" and "rank k' < rank PseudoElement" for k'
  proof -
    have "correctOrder this PseudoElement"
      using assms(1) that(1) by (simp add: consistent_def)
    then show ?thesis
      using that(2) touched_later_iff by blast
  qed
  show ?thesis
    using assms(2) later last
    by (auto simp: add_eq alike_def touched_later_flag split: if_splits)
qed

lemma alike_stringify:
  assumes "alike a b"
  shows "fst (stringify a) = fst (stringify b)" and "alike (snd (stringify a)) (snd (stringify b))"
  using assms by (simp_all add: alike_def stringify_eq)

lemma consistent_new [simp]: "consistent new_CssSelectorBase"
  by (simp add: consistent_def)

lemma consistent_flag:
  assumes "consistent this" and "touched_later k this \<or> params this k \<noteq> []"
  shows "consistent (this\<lparr>correctOrder := (correctOrder this)(k := True)\<rparr>)"
proof -
  have "\<exists>t. rank k \<le> rank t \<and> params this t \<noteq> []"
  proof (cases "params this k = []")
    case True
    then obtain t where "rank k < rank t" and "correctOrder this t"
      using assms(2) by (auto simp: touched_later_iff)
    then obtain t' where "rank t \<le> rank t'" and "params this t' \<noteq> []"
      using assms(1) unfolding consistent_def by blast
    then show ?thesis
      using \<open>rank k < rank t\<close> by (meson le_trans less_imp_le)
  next
    case False
    then show ?thesis by blast
  qed
  then show ?thesis
    using assms(1) by (simp add: consistent_def)
qed

lemma consistent_push:
  assumes "consistent this" and "singular k \<longrightarrow> params this k = []"
  shows "consistent (push k v (this\<lparr>correctOrder := (correctOrder this)(k := True)\<rparr>))"
proof -
  let ?b = "push k v (this\<lparr>correctOrder := (correctOrder this)(k := True)\<rparr>)"
  have 1: "\<forall>k'. params ?b k' \<noteq> [] \<longrightarrow> correctOrder ?b k'"
    using assms(1) by (simp add: consistent_def params_push)
  have 2: "\<exists>t. rank k' \<le> rank t \<and> params ?b t \<noteq> []" if "correctOrder ?b k'" for k'
  proof (cases "k' = k")
    case True
    then show ?thesis by (auto simp: params_push)
  next
    case False
    then have "correctOrder this k'"
      using that by simp
    then obtain t where "rank k' \<le> rank t" and "params this t \<noteq> []"
      using assms(1) unfolding consistent_def by blast
    then show ?thesis
      by (auto simp: params_push intro!: exI [of _ t])
  qed
  have 3: "\<forall>k'. singular k' \<longrightarrow> length (params ?b k') \<le> 1"
    using assms by (simp add: consistent_def params_push)
  show ?thesis
    unfolding consistent_def using 1 2 3 by blast
qed

lemma consistent_add: "consistent this \<Longrightarrow> consistent (snd (add k v this))"
  by (auto simp: add_eq singular_def intro!: consistent_flag consistent_push)

lemma touched_later_params:
  assumes "consistent this"
  shows "touched_later k this \<longleftrightarrow>
           list_ex (\<lambda>t. rank k < rank t \<and> params this t \<noteq> []) canonical_order"
proof -
  have "touched_later k this \<longleftrightarrow> (\<exists>t. rank k < rank t \<and> params this t \<noteq> [])"
    using assms unfolding touched_later_iff consistent_def
    by (meson less_le_trans)
  then show ?thesis
    by (simp add: canonical_order_def ex_key)
qed

lemma consistent_selectorString [simp]: "consistent (this\<lparr>selectorString := s\<rparr>) = consistent this"
  by (simp add: consistent_def)

lemma consistent_stringify: "consistent this \<Longrightarrow> consistent (snd (stringify this))"
  by (simp add: stringify_eq)

lemma alike_selectorString:
  "alike a b \<Longrightarrow> alike (a\<lparr>selectorString := s\<rparr>) (b\<lparr>selectorString := s\<rparr>)"
  by (simp add: alike_def)

lemma stringify_at_eq:
  "stringify_at p h =
     (if p < length h then Some (fst (stringify (h ! p)), h[p := snd (stringify (h ! p))]) else None)"
  by (simp add: stringify_at_def split: prod.split)

lemma stringify_at_alike:
  assumes "list_all2 alike h h'"
  shows "rel_option (rel_prod (=) (list_all2 alike)) (stringify_at p h) (stringify_at p h')"
proof (cases "p < length h")
  case True
  then have "alike (h ! p) (h' ! p)"
    using assms by (simp add: list_all2_nthD)
  then show ?thesis
    using True assms list_all2_lengthD [OF assms]
    by (simp add: stringify_at_eq alike_stringify list_all2_update_cong)
next
  case False
  then show ?thesis
    using list_all2_lengthD [OF assms] by (simp add: stringify_at_eq)
qed

lemma combine_alike:
  assumes "list_all2 alike h h'"
  shows "rel_option (list_all2 alike)
           (combine this selector1 combinator selector2 h)
           (combine this selector1 combinator selector2 h')"
proof (cases "stringify_at selector1 h")
  case None
  then show ?thesis
    using stringify_at_alike [OF assms, of selector1] by (simp add: combine_def)
next
  case (Some r1)
  obtain s1 h1 where r1: "r1 = (s1, h1)" by (cases r1)
  obtain h1' where 1: "stringify_at selector1 h' = Some (s1, h1')" and a1: "list_all2 alike h1 h1'"
    using stringify_at_alike [OF assms, of selector1] Some r1
    by (auto simp: option_rel_Some1)
  show ?thesis
  proof (cases "stringify_at selector2 h1")
    case None
    then show ?thesis
      using stringify_at_alike [OF a1, of selector2] Some r1 1 by (simp add: combine_def)
  next
    case (Some r2)
    obtain s2 h2 where r2: "r2 = (s2, h2)" by (cases r2)
    obtain h2' where 2: "stringify_at selector2 h1' = Some (s2, h2')" and a2: "list_all2 alike h2 h2'"
      using stringify_at_alike [OF a1, of selector2] Some r2
      by (auto simp: option_rel_Some1)
    have len: "length h2 = length h2'"
      using a2 by (rule list_all2_lengthD)
    have "this < length h2 \<Longrightarrow> alike (h2 ! this) (h2' ! this)"
      using a2 by (simp add: list_all2_nthD)
    then show ?thesis
      using \<open>stringify_at selector1 h = Some r1\<close> r1 1 Some r2 2 a2 len
      by (simp add: combine_def alike_selectorString list_all2_update_cong)
  qed
qed

lemma step_alike:
  assumes "list_all2 alike h h'"
  shows "fst (step c h) = fst (step c h')"
    and "list_all2 alike (snd (step c h)) (snd (step c h'))"
proof -
  have len: "length h = length h'"
    using assms by (rule list_all2_lengthD)
  have "fst (step c h) = fst (step c h') \<and> list_all2 alike (snd (step c h)) (snd (step c h'))"
  proof (cases c)
    case New
    then show ?thesis
      using assms len by (simp add: new_def list_all2_appendI)
  next
    case (Call p m)
    show ?thesis
    proof (cases m)
      case (Add k v)
      show ?thesis
      proof (cases "p < length h")
        case True
        then have a: "alike (h ! p) (h' ! p)"
          using assms by (simp add: list_all2_nthD)
        show ?thesis
          using True len assms alike_add [OF a, of k v]
          by (auto simp: Call Add list_all2_update_cong split: prod.splits option.splits)
      next
        case False
        then show ?thesis
          using len assms by (simp add: Call Add)
      qed
    next
      case Stringify
      show ?thesis
        using stringify_at_alike [OF assms, of p] assms
        by (auto simp: Call Stringify option_rel_Some1 split: option.splits)
    next
      case (Combine s1 cb s2)
      show ?thesis
        using combine_alike [OF assms, of p s1 cb s2] assms
        by (auto simp: Call Combine option_rel_Some1 split: option.splits)
    qed
  qed
  then show "fst (step c h) = fst (step c h')"
    and "list_all2 alike (snd (step c h)) (snd (step c h'))"
    by simp_all
qed

lemma trace_alike: "list_all2 alike h h' \<Longrightarrow> trace cmds h = trace cmds h'"
proof (induction cmds arbitrary: h h')
  case Nil
  then show ?case by simp
next
  case (Cons c cmds)
  then show ?case
    using step_alike [OF Cons.prems, of c] by simp
qed

lemma consistent_update:
  "\<forall>b\<in>set h. consistent b \<Longrightarrow> consistent x \<Longrightarrow> \<forall>b\<in>set (h[p := x]). consistent b"
  using set_update_subset_insert [of h p x] by blast

lemma stringify_at_consistent:
  assumes "\<forall>b\<in>set h. consistent b" and "stringify_at p h = Some (s, h1)"
  shows "\<forall>b\<in>set h1. consistent b"
proof -
  have lt: "p < length h" and h1: "h1 = h[p := snd (stringify (h ! p))]"
    using assms(2) by (simp_all add: stringify_at_eq split: if_splits)
  have "consistent (h ! p)"
    using assms(1) lt by simp
  then have "consistent (snd (stringify (h ! p)))"
    by (rule consistent_stringify)
  with assms(1) show ?thesis
    unfolding h1 by (rule consistent_update)
qed

lemma combine_Some:
  assumes "combine this selector1 combinator selector2 h = Some h'"
  obtains s1 h1 s2 h2 where "stringify_at selector1 h = Some (s1, h1)"
    and "stringify_at selector2 h1 = Some (s2, h2)"
    and "this < length h2"
    and "h' = h2[this := (h2 ! this)\<lparr>selectorString := s1 @ '' '' @ combinator @ '' '' @ s2\<rparr>]"
proof (cases "stringify_at selector1 h")
  case None
  then show ?thesis using assms by (simp add: combine_def)
next
  case (Some r1)
  obtain s1 h1 where r1: "stringify_at selector1 h = Some (s1, h1)"
    using Some by (cases r1) simp
  show ?thesis
  proof (cases "stringify_at selector2 h1")
    case None
    then show ?thesis using assms r1 by (simp add: combine_def)
  next
    case (Some r2)
    obtain s2 h2 where r2: "stringify_at selector2 h1 = Some (s2, h2)"
      using Some by (cases r2) simp
    show ?thesis
      using assms r1 r2 that [OF r1 r2] by (simp add: combine_def split: if_splits)
  qed
qed

lemma combine_consistent:
  assumes "\<forall>b\<in>set h. consistent b" and "combine this selector1 combinator selector2 h = Some h'"
  shows "\<forall>b\<in>set h'. consistent b"
proof -
  from assms(2) obtain s1 h1 s2 h2 where 1: "stringify_at selector1 h = Some (s1, h1)"
    and 2: "stringify_at selector2 h1 = Some (s2, h2)"
    and lt: "this < length h2"
    and h': "h' = h2[this := (h2 ! this)\<lparr>selectorString := s1 @ '' '' @ combinator @ '' '' @ s2\<rparr>]"
    by (rule combine_Some)
  have c2: "\<forall>b\<in>set h2. consistent b"
    using stringify_at_consistent [OF stringify_at_consistent [OF assms(1) 1] 2] .
  then have "consistent (h2 ! this)"
    using lt by simp
  then have "consistent ((h2 ! this)\<lparr>selectorString := s1 @ '' '' @ combinator @ '' '' @ s2\<rparr>)"
    by simp
  with c2 show ?thesis
    unfolding h' by (rule consistent_update)
qed

lemma step_consistent:
  assumes "\<forall>b\<in>set h. consistent b"
  shows "\<forall>b\<in>set (snd (step c h)). consistent b"
proof (cases c)
  case New
  then show ?thesis using assms by (simp add: new_def)
next
  case (Call p m)
  show ?thesis
  proof (cases m)
    case (Add k v)
    show ?thesis
    proof (cases "p < length h")
      case True
      then have "consistent (snd (add k v (h ! p)))"
        using assms by (simp add: consistent_add)
      with assms have "\<forall>b\<in>set (h[p := snd (add k v (h ! p))]). consistent b"
        by (rule consistent_update)
      then show ?thesis
        using True by (simp add: Call Add split: prod.splits option.splits)
    next
      case False
      then show ?thesis using assms by (simp add: Call Add)
    qed
  next
    case Stringify
    show ?thesis
    proof (cases "stringify_at p h")
      case None
      then show ?thesis using assms by (simp add: Call Stringify)
    next
      case (Some r)
      then show ?thesis
        using stringify_at_consistent [OF assms, of p "fst r" "snd r"]
        by (simp add: Call Stringify split: prod.splits)
    qed
  next
    case (Combine s1 cb s2)
    show ?thesis
    proof (cases "combine p s1 cb s2 h")
      case None
      then show ?thesis using assms by (simp add: Call Combine)
    next
      case (Some h1)
      then show ?thesis
        using combine_consistent [OF assms Some] by (simp add: Call Combine)
    qed
  qed
qed

lemma exec_consistent: "\<forall>b\<in>set h. consistent b \<Longrightarrow> \<forall>b\<in>set (exec cmds h). consistent b"
proof (induction cmds arbitrary: h)
  case Nil
  then show ?case by simp
next
  case (Cons c cmds)
  show ?case
    using Cons.IH [OF step_consistent [OF Cons.prems, of c]] by simp
qed

lemmas run_store = new_def stringify_at_eq combine_def


section \<open>Rectangle: the fields and the area\<close>

text \<open>
  C10. \<open>Rectangle w h\<close> has width \<open>w\<close> and height \<open>h\<close>, \<open>getArea\<close> returns the
  product of the two fields, and it is computed from the fields as they are when it is
  called: after an assignment to \<open>width\<close> or to \<open>height\<close> a later call returns the
  product of the new values.
\<close>

theorem Rectangle_getArea:
  "width (Rectangle w h) = w \<and> height (Rectangle w h) = h \<and>
   getArea (Rectangle w h) = w * h \<and>
   getArea ((Rectangle w h)\<lparr>width := w'\<rparr>) = w' * h \<and>
   getArea ((Rectangle w h)\<lparr>height := h'\<rparr>) = w * h' \<and>
   getArea (r\<lparr>width := w', height := h'\<rparr>) = w' * h'"
  by (simp add: Rectangle_def getArea_def)


section \<open>Rendering\<close>

text \<open>Every call of \<open>stringify\<close> returns what the call before returned, and the rendering again.\<close>

lemma stringify_again:
  "fst (stringify (snd (stringify this))) = fst (stringify this) @ render (params this)"
  by (simp add: stringify_eq)

text \<open>
  C1. The claim: two calls of \<open>stringify\<close> in succession return the same string and leave
  the builder unchanged. The code appends the rendering of the fragments to
  \<open>this.selectorString\<close> on every call: on the builder \<open>element('a')\<close> the first call
  returns \<open>a\<close> and assigns it to the field, which was empty, and the second call returns \<open>aa\<close>.
\<close>

theorem stringify_twice_differs:
  \<open>fst (element ''a'' new_CssSelectorBase) = None \<and>
   selectorString (snd (element ''a'' new_CssSelectorBase)) = [] \<and>
   fst (stringify (snd (element ''a'' new_CssSelectorBase))) = ''a'' \<and>
   selectorString (snd (stringify (snd (element ''a'' new_CssSelectorBase)))) = ''a'' \<and>
   fst (stringify (snd (stringify (snd (element ''a'' new_CssSelectorBase))))) = ''aa''\<close>
  unfolding method_as_add by (simp add: evaluate)


text \<open>
  C2. Fragments added to a new builder in strictly increasing category order are all
  accepted, and \<open>stringify\<close> then returns the concatenation, in the canonical order, of each
  category's fragments joined with its separator between its prefix and its suffix, with
  nothing for a category that has no fragment. In particular
  \<open>element('a').attr('href$=".png"').pseudoClass('focus').stringify()\<close> is
  \<open>a[href$=".png"]:focus\<close>.
\<close>

theorem increasing_additions_render:
  \<open>sorted_wrt (<) (map (\<lambda>kv. rank (fst kv)) ops) \<Longrightarrow>
     (\<exists>this. addAll ops new_CssSelectorBase = Inr this \<and>
        fst (stringify this) = render (fragments_of ops)) \<and>
     fst (element ''a'' new_CssSelectorBase) = None \<and>
     fst (attr ''href$=".png"'' (snd (element ''a'' new_CssSelectorBase))) = None \<and>
     fst (pseudoClass ''focus''
            (snd (attr ''href$=".png"'' (snd (element ''a'' new_CssSelectorBase))))) = None \<and>
     fst (stringify (snd (pseudoClass ''focus''
            (snd (attr ''href$=".png"'' (snd (element ''a'' new_CssSelectorBase)))))))
       = ''a[href$=".png"]:focus''\<close>
proof -
  assume inc: "sorted_wrt (<) (map (\<lambda>kv. rank (fst kv)) ops)"
  have "sorted (map (\<lambda>kv. rank (fst kv)) ops)"
    using inc by (rule strict_sorted_imp_sorted)
  moreover have "\<forall>t. correctOrder new_CssSelectorBase t \<longrightarrow> (\<forall>kv\<in>set ops. rank t \<le> rank (fst kv))"
    by simp
  moreover have "\<forall>kv\<in>set ops. singular (fst kv) \<longrightarrow>
      length (params new_CssSelectorBase (fst kv) @ fragments_of ops (fst kv)) \<le> 1"
    using sorted_wrt_less_fragments [OF inc] by simp
  ultimately obtain this where
    "addAll ops new_CssSelectorBase = Inr this"
    "params this = (\<lambda>k. params new_CssSelectorBase k @ fragments_of ops k)"
    "selectorString this = selectorString new_CssSelectorBase"
    using addAll_ok by blast
  then have general: "\<exists>this. addAll ops new_CssSelectorBase = Inr this \<and>
        fst (stringify this) = render (fragments_of ops)"
    by (auto simp: stringify_eq)
  have example:
    \<open>fst (element ''a'' new_CssSelectorBase) = None \<and>
     fst (attr ''href$=".png"'' (snd (element ''a'' new_CssSelectorBase))) = None \<and>
     fst (pseudoClass ''focus''
            (snd (attr ''href$=".png"'' (snd (element ''a'' new_CssSelectorBase))))) = None \<and>
     fst (stringify (snd (pseudoClass ''focus''
            (snd (attr ''href$=".png"'' (snd (element ''a'' new_CssSelectorBase)))))))
       = ''a[href$=".png"]:focus''\<close>
    unfolding method_as_add by (simp add: evaluate)
  show ?thesis
    using general example by blast
qed

theorem increasing_additions_render_witness:
  \<open>sorted_wrt (<) (map (\<lambda>kv. rank (fst kv))
      [(Element, ''div''), (Id, ''main''), (Attr, ''lang''), (PseudoElement, ''first-line'')]) \<and>
   (\<exists>this. addAll [(Element, ''div''), (Id, ''main''), (Attr, ''lang''), (PseudoElement, ''first-line'')]
        new_CssSelectorBase = Inr this \<and>
      fst (stringify this) = ''div#main[lang]::first-line'')\<close>
  using increasing_additions_render
    [of "[(Element, ''div''), (Id, ''main''), (Attr, ''lang''), (PseudoElement, ''first-line'')]",
      THEN conjunct1]
  by (simp add: render_def canonical_order_def render_category_def fragments_of_def)


text \<open>
  C7. \<open>class\<close>, \<open>attr\<close> and \<open>pseudoClass\<close> accept any number of additions as long as
  no later category has been touched, each addition is appended to the category's
  fragments, and \<open>stringify\<close> renders the fragments of the category in the order in which
  they were added (\<open>render\<close> joins them in list order).
\<close>

theorem repeated_additions_in_order:
  "k = Class \<or> k = Attr \<or> k = PseudoClass \<Longrightarrow> \<not> touched_later k this \<Longrightarrow>
     \<exists>this'. addAll (map (Pair k) vals) this = Inr this' \<and>
       params this' = (params this)(k := params this k @ vals) \<and>
       fst (stringify this') =
         selectorString this @ render ((params this)(k := params this k @ vals))"
proof -
  assume plural: "k = Class \<or> k = Attr \<or> k = PseudoClass"
    and not_later: "\<not> touched_later k this"
  let ?ops = "map (Pair k) vals"
  have "\<forall>t. correctOrder this t \<longrightarrow> (\<forall>kv\<in>set ?ops. rank t \<le> rank (fst kv))"
    using not_later by (auto simp: touched_later_iff not_less)
  moreover have "\<forall>kv\<in>set ?ops. singular (fst kv) \<longrightarrow>
      length (params this (fst kv) @ fragments_of ?ops (fst kv)) \<le> 1"
    using plural by (auto simp: singular_def)
  ultimately obtain this' where r:
    "addAll ?ops this = Inr this'"
    "params this' = (\<lambda>k'. params this k' @ fragments_of ?ops k')"
    "selectorString this' = selectorString this"
    using addAll_ok [OF sorted_same] by blast
  have "params this' = (params this)(k := params this k @ vals)"
    unfolding r(2) by (auto simp: fragments_of_same)
  then show ?thesis
    using r(1,3) by (simp add: stringify_eq)
qed

theorem repeated_additions_in_order_witness:
  \<open>\<not> touched_later Class (snd (id_sel ''main'' new_CssSelectorBase)) \<and>
   (\<exists>this'. addAll [(Class, ''container''), (Class, ''editable'')]
        (snd (id_sel ''main'' new_CssSelectorBase)) = Inr this' \<and>
      fst (stringify this') = ''#main.container.editable'')\<close>
proof -
  have nl: "\<not> touched_later Class (snd (id_sel ''main'' new_CssSelectorBase))"
    unfolding method_as_add by (simp add: evaluate)
  show ?thesis
    using nl repeated_additions_in_order
      [of Class "snd (id_sel ''main'' new_CssSelectorBase)" "[''container'', ''editable'']", OF _ nl]
    unfolding method_as_add by (simp add: evaluate)
qed


section \<open>Order and occurrence\<close>

text \<open>
  C3, as amended. The claim: an addition raises \<open>SelectorOrderError\<close> exactly when a
  category strictly later in the canonical order has been touched. \<open>element\<close> and \<open>id\<close>
  check the occurrence first, so on a builder that already has an element (an id) they
  raise \<open>DuplicateSelectorPartError\<close> whatever has been touched. What holds: an addition
  raises \<open>SelectorOrderError\<close> exactly when a strictly later category has been touched and
  it is not an \<open>element\<close> or \<open>id\<close> call on a builder that already has one. On every
  reachable object a later category is flagged as touched exactly when a later category
  has a fragment. \<open>class\<close> after \<open>attr\<close> raises \<open>SelectorOrderError\<close>, and so does
  \<open>element\<close> after a successful \<open>id\<close> on a builder without an element.
\<close>

theorem order_error_iff:
  "(fst (add k val this) = Some SelectorOrderError \<longleftrightarrow>
      touched_later k this \<and> \<not> ((k = Element \<or> k = Id) \<and> params this k \<noteq> [])) \<and>
   (this \<in> set (exec cmds []) \<longrightarrow>
      touched_later k this =
        list_ex (\<lambda>t. rank k < rank t \<and> params this t \<noteq> []) canonical_order) \<and>
   fst (class_sel val' (snd (attr val this))) = Some SelectorOrderError \<and>
   (params this Element = [] \<longrightarrow> fst (id_sel val this) = None \<longrightarrow>
      fst (element val' (snd (id_sel val this))) = Some SelectorOrderError)"
proof -
  have a: "fst (add k val this) = Some SelectorOrderError \<longleftrightarrow>
      touched_later k this \<and> \<not> ((k = Element \<or> k = Id) \<and> params this k \<noteq> [])"
    by (auto simp: add_eq)
  have "\<forall>b\<in>set (exec cmds []). consistent b"
    by (rule exec_consistent) simp
  then have r: "this \<in> set (exec cmds []) \<longrightarrow>
      touched_later k this =
        list_ex (\<lambda>t. rank k < rank t \<and> params this t \<noteq> []) canonical_order"
    using touched_later_params by blast
  have b: "fst (class_sel val' (snd (attr val this))) = Some SelectorOrderError"
    unfolding method_as_add by (simp add: add_eq touched_later_def canonical_order_def)
  have c: "params this Element = [] \<longrightarrow> fst (id_sel val this) = None \<longrightarrow>
      fst (element val' (snd (id_sel val this))) = Some SelectorOrderError"
    unfolding method_as_add
    by (simp add: add_eq touched_later_def canonical_order_def params_push split: if_splits)
  show ?thesis using a r b c by blast
qed

theorem order_error_iff_witness:
  \<open>new_CssSelectorBase \<in> set (exec [New] []) \<and>
   params new_CssSelectorBase Element = [] \<and> fst (id_sel ''main'' new_CssSelectorBase) = None \<and>
   \<not> touched_later Element new_CssSelectorBase \<and>
   fst (element ''div'' (snd (id_sel ''main'' new_CssSelectorBase))) = Some SelectorOrderError\<close>
proof -
  have ok: "fst (id_sel ''main'' new_CssSelectorBase) = None"
    unfolding method_as_add by (simp add: evaluate)
  have reach: "new_CssSelectorBase \<in> set (exec [New] [])"
    by (simp add: new_def)
  show ?thesis
    using ok reach
      order_error_iff [of Element "''main''" new_CssSelectorBase "[New]" "''div''"]
    by (simp add: canonical_order_def)
qed

text \<open>
  On \<open>element('a').id('b')\<close> the later category id is touched, and \<open>element('c')\<close> raises
  \<open>DuplicateSelectorPartError\<close>, not \<open>SelectorOrderError\<close>.
\<close>

theorem order_error_counterexample:
  \<open>fst (element ''a'' new_CssSelectorBase) = None \<and>
   fst (id_sel ''b'' (snd (element ''a'' new_CssSelectorBase))) = None \<and>
   touched_later Element (snd (id_sel ''b'' (snd (element ''a'' new_CssSelectorBase)))) \<and>
   fst (element ''c'' (snd (id_sel ''b'' (snd (element ''a'' new_CssSelectorBase)))))
     = Some DuplicateSelectorPartError \<and>
   fst (element ''c'' (snd (id_sel ''b'' (snd (element ''a'' new_CssSelectorBase)))))
     \<noteq> Some SelectorOrderError\<close>
  unfolding method_as_add by (simp add: evaluate)

text \<open>
  C4. For \<open>element\<close>, \<open>id\<close> and \<open>pseudoElement\<close>: a second addition after a successful
  one raises \<open>DuplicateSelectorPartError\<close>, as does any addition to a builder that already
  has a fragment of the category; and in every object of every store that a sequence of
  calls produces, the category holds at most one fragment.
\<close>

theorem singular_at_most_once:
  assumes "singular k"
  shows "(fst (add k val this) = None \<longrightarrow>
            fst (add k val' (snd (add k val this))) = Some DuplicateSelectorPartError) \<and>
         (params this k \<noteq> [] \<longrightarrow> fst (add k val' this) = Some DuplicateSelectorPartError) \<and>
         (this \<in> set (exec cmds []) \<longrightarrow> length (params this k) \<le> 1)"
proof -
  have again: "params b k \<noteq> [] \<Longrightarrow> fst (add k val' b) = Some DuplicateSelectorPartError" for b
    using assms by (auto simp: add_eq singular_def)
  have added: "fst (add k val this) = None \<Longrightarrow> params (snd (add k val this)) k \<noteq> []"
    by (auto simp: add_eq params_push split: if_splits)
  have "\<forall>b\<in>set (exec cmds []). consistent b"
    by (rule exec_consistent) simp
  then have "this \<in> set (exec cmds []) \<Longrightarrow> length (params this k) \<le> 1"
    using assms by (simp add: consistent_def)
  then show ?thesis
    using again added by blast
qed

theorem singular_at_most_once_witness:
  \<open>singular Element \<and>
   fst (add Element ''table'' new_CssSelectorBase) = None \<and>
   fst (add Element ''div'' (snd (add Element ''table'' new_CssSelectorBase)))
     = Some DuplicateSelectorPartError \<and>
   snd (add Element ''table'' new_CssSelectorBase)
     \<in> set (exec [New, Call 0 (Add Element ''table'')] []) \<and>
   length (params (snd (add Element ''table'' new_CssSelectorBase)) Element) \<le> 1\<close>
proof -
  have s: "singular Element"
    by (simp add: singular_def)
  have ok: "fst (add Element ''table'' new_CssSelectorBase) = None"
    by (simp add: evaluate)
  have reach: "snd (add Element ''table'' new_CssSelectorBase)
     \<in> set (exec [New, Call 0 (Add Element ''table'')] [])"
    by (simp add: run_store evaluate)
  show ?thesis
    using s ok reach
      singular_at_most_once [OF s, of "''table''" new_CssSelectorBase "''div''"]
      singular_at_most_once [OF s, of _ "snd (add Element ''table'' new_CssSelectorBase)" _
        "[New, Call 0 (Add Element ''table'')]"]
    by blast
qed

text \<open>
  C8. An addition that throws may have set a flag of \<open>correctOrder\<close> before it threw, but
  no caller can tell: whatever calls follow, on this object or on any other, return and
  throw the same as if the failed call had not been made, \<open>stringify\<close> included.
\<close>

theorem failed_add_is_atomic:
  assumes "step (Call p (Add k val)) (exec pre []) = (Threw e, h')"
  shows "trace cmds h' = trace cmds (exec pre [])"
proof -
  let ?h = "exec pre []"
  have inv: "\<forall>b\<in>set ?h. consistent b"
    by (rule exec_consistent) simp
  have lt: "p < length ?h"
    using assms by (simp split: if_splits)
  obtain r b where ab: "add k val (?h ! p) = (r, b)"
    by (cases "add k val (?h ! p)")
  have failed: "fst (add k val (?h ! p)) \<noteq> None" and h': "h' = ?h[p := snd (add k val (?h ! p))]"
    using assms lt ab by (cases r; simp)+
  have "consistent (?h ! p)"
    using inv lt by simp
  then have "alike (snd (add k val (?h ! p))) (?h ! p)"
    using failed by (rule failed_add_alike)
  moreover have "list_all2 alike ?h ?h"
    by (simp add: list_all2_refl)
  ultimately have "list_all2 alike h' ?h"
    unfolding h' using list_all2_update_cong [of alike ?h ?h _ "?h ! p" p] by simp
  then show ?thesis
    by (rule trace_alike)
qed

theorem failed_add_is_atomic_witness:
  \<open>fst (step (Call 0 (Add Class ''y'')) (exec [New, Call 0 (Add Attr ''x'')] []))
     = Threw SelectorOrderError \<and>
   trace [Call 0 (Add Class ''z''), Call 0 (Add PseudoClass ''hover''), Call 0 Stringify]
     (snd (step (Call 0 (Add Class ''y'')) (exec [New, Call 0 (Add Attr ''x'')] [])))
   = trace [Call 0 (Add Class ''z''), Call 0 (Add PseudoClass ''hover''), Call 0 Stringify]
       (exec [New, Call 0 (Add Attr ''x'')] []) \<and>
   trace [Call 0 (Add Class ''z''), Call 0 (Add PseudoClass ''hover''), Call 0 Stringify]
       (exec [New, Call 0 (Add Attr ''x'')] [])
   = [Threw SelectorOrderError, Returned_this, Returned_string ''[x]:hover'']\<close>
proof -
  let ?h = "exec [New, Call 0 (Add Attr ''x'')] []"
  let ?c = "Call 0 (Add Class ''y'')"
  have threw: "fst (step ?c ?h) = Threw SelectorOrderError"
    by (simp add: run_store evaluate)
  then have "step ?c ?h = (Threw SelectorOrderError, snd (step ?c ?h))"
    by (metis prod.collapse)
  from failed_add_is_atomic [OF this] have same:
    "\<And>cmds. trace cmds (snd (step ?c ?h)) = trace cmds ?h" .
  have "trace [Call 0 (Add Class ''z''), Call 0 (Add PseudoClass ''hover''), Call 0 Stringify] ?h
     = [Threw SelectorOrderError, Returned_this, Returned_string ''[x]:hover'']"
    by (simp add: run_store evaluate)
  with threw same show ?thesis by simp
qed


section \<open>Combining selectors\<close>

text \<open>
  For two different operands, \<open>cssSelectorBuilder.combine(A, c, B).stringify()\<close> is what
  \<open>A.stringify()\<close> returns, a space, \<open>c\<close>, a space, and what \<open>B.stringify()\<close> returns;
  the example of the source's documentation follows.
\<close>

lemma combine_distinct:
  assumes "A < length h" and "B < length h" and "A \<noteq> B"
  shows "(case cssSelectorBuilder_combine A c B h of
            None \<Rightarrow> None
          | Some (p, h1) \<Rightarrow> map_option fst (stringify_at p h1))
         = Some (fst (stringify (h ! A)) @ '' '' @ c @ '' '' @ fst (stringify (h ! B)))"
  using assms
  by (simp add: cssSelectorBuilder_combine_def run_store nth_append stringify_eq render_def
        canonical_order_def render_category_def)

lemma combine_example:
  \<open>(case cssSelectorBuilder_combine 0 ''+'' 1
           (exec [New, Call 0 (Add Element ''div''), Call 0 (Add Id ''main''),
                  Call 0 (Add Class ''container''), Call 0 (Add Class ''draggable''),
                  New, Call 1 (Add Element ''table''), Call 1 (Add Id ''data'')] []) of
      None \<Rightarrow> None
    | Some (p, h1) \<Rightarrow> map_option fst (stringify_at p h1))
   = Some ''div#main.container.draggable + table#data''\<close>
  by (simp add: cssSelectorBuilder_combine_def run_store evaluate nth_append)

text \<open>
  C5. The claim: the combination renders as the rendered form of \<open>A\<close>, a space, \<open>c\<close>, a
  space, the rendered form of \<open>B\<close>, for all selectors \<open>A\<close> and \<open>B\<close>. \<open>combine\<close> calls
  \<open>stringify\<close> on each operand, and \<open>stringify\<close> appends to the operand's
  \<open>selectorString\<close>. With the selector \<open>li = element('li')\<close> as both operands,
  \<open>combine(li, '+', li).stringify()\<close> returns \<open>li + lili\<close>: no string stands on both
  sides of the combinator.
\<close>

theorem combine_same_operand:
  \<open>trace [New, Call 0 (Add Element ''li'')] [] = [Returned_new 0, Returned_this] \<and>
   (case cssSelectorBuilder_combine 0 ''+'' 0 (exec [New, Call 0 (Add Element ''li'')] []) of
      None \<Rightarrow> None
    | Some (p, h1) \<Rightarrow> map_option fst (stringify_at p h1))
   = Some ''li + lili''\<close>
  by (simp add: cssSelectorBuilder_combine_def run_store evaluate nth_append)

text \<open>\<open>combine\<close> leaves the fragments and the flags of every object as they were.\<close>

lemma stringify_keeps_fragments [simp]:
  "params (snd (stringify this)) = params this"
  "correctOrder (snd (stringify this)) = correctOrder this"
  by (simp_all add: stringify_eq)

lemma combine_keeps_fragments:
  assumes "cssSelectorBuilder_combine A c B h = Some (p, h1)" and "q < length h"
  shows "params (h1 ! q) = params (h ! q) \<and> correctOrder (h1 ! q) = correctOrder (h ! q)"
  using assms
  by (auto simp: cssSelectorBuilder_combine_def run_store nth_append nth_list_update
        split: if_splits)

text \<open>
  C6. The claim: \<open>combine\<close> does not change its operands, whose later \<open>stringify\<close> results
  are the same as if \<open>combine\<close> had not been called. With \<open>A = element('a')\<close> and
  \<open>B = element('b')\<close>, \<open>A.stringify()\<close> returns \<open>a\<close> and \<open>B.stringify()\<close> returns \<open>b\<close>
  when \<open>combine\<close> has not been called, and \<open>aa\<close> and \<open>bb\<close> after \<open>combine(A, '+', B)\<close>:
  the call inside \<open>combine\<close> has already appended the rendering to \<open>selectorString\<close>.
\<close>

theorem combine_changes_operands:
  \<open>trace [New, Call 0 (Add Element ''a''), New, Call 1 (Add Element ''b'')] []
     = [Returned_new 0, Returned_this, Returned_new 1, Returned_this] \<and>
   map_option fst (stringify_at 0
       (exec [New, Call 0 (Add Element ''a''), New, Call 1 (Add Element ''b'')] []))
     = Some ''a'' \<and>
   (case cssSelectorBuilder_combine 0 ''+'' 1
           (exec [New, Call 0 (Add Element ''a''), New, Call 1 (Add Element ''b'')] []) of
      None \<Rightarrow> None
    | Some (p, h1) \<Rightarrow> map_option fst (stringify_at 0 h1))
     = Some ''aa'' \<and>
   map_option fst (stringify_at 1
       (exec [New, Call 0 (Add Element ''a''), New, Call 1 (Add Element ''b'')] []))
     = Some ''b'' \<and>
   (case cssSelectorBuilder_combine 0 ''+'' 1
           (exec [New, Call 0 (Add Element ''a''), New, Call 1 (Add Element ''b'')] []) of
      None \<Rightarrow> None
    | Some (p, h1) \<Rightarrow> map_option fst (stringify_at 1 h1))
     = Some ''bb''\<close>
  by (simp add: cssSelectorBuilder_combine_def run_store evaluate nth_append)


section \<open>Serialization: the round trip\<close>
























lemma start_char_not:
  assumes "start_char c"
  shows "\<not> is_ws c" and "c \<noteq> CHR '']''" and "c \<noteq> CHR ''}''" and "c \<noteq> CHR '',''" and "c \<noteq> CHR '':''"
  using assms by (auto simp: start_char_def is_ws_def is_digit_def double_quote_def)

lemma skip_ws_start [simp]: "start_char c \<Longrightarrow> skip_ws (c # r) = c # r"
  by (simp add: skip_ws_def start_char_not)

lemma skip_ws_punct [simp]:
  "skip_ws (CHR '','' # r) = CHR '','' # r"
  "skip_ws (CHR '']'' # r) = CHR '']'' # r"
  "skip_ws (CHR ''}'' # r) = CHR ''}'' # r"
  "skip_ws (CHR '':'' # r) = CHR '':'' # r"
  "skip_ws [] = []"
  by (simp_all add: skip_ws_def is_ws_def)


lemma terminator_punct [simp]:
  "terminator (CHR '','' # r)" "terminator (CHR '']'' # r)" "terminator (CHR ''}'' # r)"
  by (simp_all add: terminator_def)







lemma double_quote_letters [simp]: "double_quote \<noteq> CHR ''n''" "double_quote \<noteq> CHR ''t''" "double_quote \<noteq> CHR ''f''"
  by (simp_all add: double_quote_def)












end
